theory Spec2Isabelle
  imports Main "HOL-Library.Word" "HOL-Library.Extended_Nat"
begin

unbundle bit_operations_syntax

section \<open>JavaScript numbers and byte buffers\<close>

text \<open>
  The codec works on JavaScript numbers. The model keeps the integers among them as
  \<open>int\<close>; floating-point values are outside the model. The bitwise operators of
  JavaScript first convert their operands to 32-bit signed integers (ToInt32), which is
  written out here: \<open>&\<close>, \<open>|\<close>, \<open>>>\<close> and \<open><<\<close> are \<open>js_and\<close>, \<open>js_or\<close>,
  \<open>js_sar\<close> and \<open>js_shl\<close>. The arithmetic operators \<open>+\<close> and \<open>*\<close> do not wrap.
\<close>

type_synonym byte = "8 word"

definition to_int32 :: "int \<Rightarrow> int" where
  "to_int32 x = signed_take_bit 31 x"

definition js_and :: "int \<Rightarrow> int \<Rightarrow> int" where
  "js_and a b = to_int32 a AND to_int32 b"

definition js_or :: "int \<Rightarrow> int \<Rightarrow> int" where
  "js_or a b = to_int32 a OR to_int32 b"

definition js_sar :: "int \<Rightarrow> nat \<Rightarrow> int" where
  "js_sar a n = drop_bit n (to_int32 a)"

definition js_shl :: "int \<Rightarrow> nat \<Rightarrow> int" where
  "js_shl a n = to_int32 (push_bit n (to_int32 a))"

text \<open>\<open>Uint8Array.from(numbers)\<close>: every number is stored modulo 256.\<close>

definition Uint8Array_from :: "int list \<Rightarrow> byte list" where
  "Uint8Array_from xs = map word_of_int xs"

lemma to_int32_range: "- (2 ^ 31) \<le> to_int32 x \<and> to_int32 x < 2 ^ 31"
  unfolding to_int32_def
  using signed_take_bit_int_greater_eq_minus_exp [of 31 x] signed_take_bit_int_less_exp [of 31 x]
  by simp

lemma to_int32_id: "- (2 ^ 31) \<le> x \<Longrightarrow> x < 2 ^ 31 \<Longrightarrow> to_int32 x = x"
  unfolding to_int32_def by (simp add: signed_take_bit_int_eq_self)

lemma js_sar_pos_less:
  assumes "0 < js_sar v 7"
  shows "to_int32 (js_sar v 7) < to_int32 v" and "0 < to_int32 v"
proof -
  let ?x = "to_int32 v"
  have r: "- (2 ^ 31) \<le> ?x" "?x < 2 ^ 31" using to_int32_range [of v] by simp_all
  have d: "js_sar v 7 = ?x div 128" by (simp add: js_sar_def drop_bit_eq_div)
  with assms have p: "0 < ?x div 128" by simp
  then show pos: "0 < ?x" by (simp add: pos_imp_zdiv_pos_iff)
  have lt: "?x div 128 < ?x" using pos by (simp add: int_div_less_self)
  have "to_int32 (?x div 128) = ?x div 128"
    using p lt r by (intro to_int32_id) simp_all
  with lt d show "to_int32 (js_sar v 7) < to_int32 v" by simp
qed

lemma js_sar_big_less:
  assumes "63 < v"
  shows "js_sar v 7 < v"
proof -
  let ?x = "to_int32 v"
  have le: "?x \<le> v"
    unfolding to_int32_def using assms by (simp add: signed_take_bit_int_less_eq_self_iff)
  have d: "js_sar v 7 = ?x div 128" by (simp add: js_sar_def drop_bit_eq_div)
  show ?thesis
  proof (cases "0 < ?x")
    case True
    then have "?x div 128 < ?x" by (simp add: int_div_less_self)
    with le d show ?thesis by simp
  next
    case False
    then have "?x div 128 \<le> 0" by (simp add: div_int_pos_iff not_less zdiv_mono1_neg
      div_nonpos_pos_le0)
    with assms d show ?thesis by simp
  qed
qed

section \<open>Variable-length integers: the encoders\<close>

text \<open>
  The \<open>do ... while (v > 0)\<close> loop of \<open>encode_uvar_array\<close>: it pushes the low seven bits
  of \<open>v\<close> with the continuation bit set, shifts \<open>v\<close> right by seven and repeats while
  the shifted value is positive.
\<close>

function uvar_do_while :: "int \<Rightarrow> int list \<Rightarrow> int list" where
  "uvar_do_while v lsb_to_msb =
     (let lsb_to_msb' = lsb_to_msb @ [js_and v 127 + 128];
          v' = js_sar v 7
      in if 0 < v' then uvar_do_while v' lsb_to_msb' else lsb_to_msb')"
  by pat_completeness auto
termination
  by (relation "measure (\<lambda>(v, l). nat (to_int32 v))") (auto dest: js_sar_pos_less)

declare uvar_do_while.simps [simp del]

text \<open>\<open>lsb_to_msb[0] &= 0b01111111\<close>. The array is never empty where the code does this;
  on an empty array JavaScript would store \<open>undefined & 127 = 0\<close> at index 0.\<close>

fun clear_first_continuation :: "int list \<Rightarrow> int list" where
  "clear_first_continuation [] = [0]"
| "clear_first_continuation (x # xs) = js_and x 127 # xs"

text \<open>The body of the \<open>for\<close> loop of \<open>encode_uvar_array\<close> for one element \<open>value[i]\<close>:
  the bytes it pushes.\<close>

definition uvar_bytes :: "int \<Rightarrow> int list" where
  "uvar_bytes v0 =
     (let v = v0 * (if 0 \<le> v0 then 1 else - 1);
          lsb_to_msb = uvar_do_while v []
      in rev (clear_first_continuation lsb_to_msb))"

fun encode_uvar_loop :: "int list \<Rightarrow> int list \<Rightarrow> int list" where
  "encode_uvar_loop [] bytes = bytes"
| "encode_uvar_loop (v # rest) bytes = encode_uvar_loop rest (bytes @ uvar_bytes v)"

definition encode_uvar_array :: "int list \<Rightarrow> byte list" where
  "encode_uvar_array val = Uint8Array_from (encode_uvar_loop val [])"

definition encode_uvar :: "int \<Rightarrow> byte list" where
  "encode_uvar val = encode_uvar_array [val]"

text \<open>The \<open>while (v > 0b00111111)\<close> loop of \<open>encode_ivar_array\<close>; it returns the
  remaining \<open>v\<close> and the bytes pushed so far.\<close>

function ivar_while :: "int \<Rightarrow> int list \<Rightarrow> int \<times> int list" where
  "ivar_while v lsb_to_msb =
     (if 63 < v then ivar_while (js_sar v 7) (lsb_to_msb @ [js_and v 127 + 128])
      else (v, lsb_to_msb))"
  by pat_completeness auto
termination
  by (relation "measure (\<lambda>(v, l). nat v)") (auto dest: js_sar_big_less)

declare ivar_while.simps [simp del]

definition ivar_bytes :: "int \<Rightarrow> int list" where
  "ivar_bytes v0 =
     (let sign = (if 0 \<le> v0 then 1 else - 1 :: int);
          (v, lsb_to_msb) = ivar_while (v0 * sign) [];
          lsb_to_msb' = lsb_to_msb @ [js_or (js_and v 63) (if sign = - 1 then 192 else 128)]
      in rev (clear_first_continuation lsb_to_msb'))"

fun encode_ivar_loop :: "int list \<Rightarrow> int list \<Rightarrow> int list" where
  "encode_ivar_loop [] bytes = bytes"
| "encode_ivar_loop (v # rest) bytes = encode_ivar_loop rest (bytes @ ivar_bytes v)"

definition encode_ivar_array :: "int list \<Rightarrow> byte list" where
  "encode_ivar_array val = Uint8Array_from (encode_ivar_loop val [])"

definition encode_ivar :: "int \<Rightarrow> byte list" where
  "encode_ivar val = encode_ivar_array [val]"

section \<open>Variable-length integers: the decoders\<close>

text \<open>
  The \<open>for\<close> loop of \<open>decode_uvar_array\<close>. The source reads \<open>byte = buf[offset++]\<close> before
  the test \<open>array_length > 0 && offset < buf_length + 1\<close>, so that \<open>offset\<close> is one past
  the byte in hand; the model carries \<open>i\<close>, the index of the byte in hand
  (\<open>offset - 1\<close>), tests \<open>i < length buf\<close> and reads the byte in the body, where it is in
  range. The final \<open>offset--\<close> of the source gives \<open>i\<close> back. An absent \<open>array_length\<close>
  is \<open>Infinity\<close>.
\<close>

function decode_uvar_for ::
  "byte list \<Rightarrow> nat \<Rightarrow> enat \<Rightarrow> int \<Rightarrow> int list \<Rightarrow> int list \<times> nat" where
  "decode_uvar_for buf i array_length val array =
     (if 0 < array_length \<and> i < length buf then
        (let byte = uint (buf ! i);
             val = js_shl val 7;
             val = val + js_and byte 127
         in if js_sar byte 7 = 0
            then decode_uvar_for buf (Suc i) (array_length - 1) 0 (array @ [val])
            else decode_uvar_for buf (Suc i) array_length val array)
      else (array, i))"
  by pat_completeness auto
termination
  by (relation "measure (\<lambda>(buf, i, n, v, a). length buf - i)") auto

declare decode_uvar_for.simps [simp del]

definition decode_uvar_array :: "byte list \<Rightarrow> nat \<Rightarrow> nat option \<Rightarrow> int list \<times> nat" where
  "decode_uvar_array buf offset array_length =
     (let array_length = (case array_length of None \<Rightarrow> \<infinity> | Some n \<Rightarrow> enat n);
          offset_start = offset;
          (array, i) = decode_uvar_for buf offset array_length 0 []
      in (array, i - offset_start))"

function decode_ivar_for ::
  "byte list \<Rightarrow> nat \<Rightarrow> enat \<Rightarrow> int \<Rightarrow> int \<Rightarrow> int list \<Rightarrow> int list \<times> nat" where
  "decode_ivar_for buf i array_length sign val array =
     (if 0 < array_length \<and> i < length buf then
        (let byte = uint (buf ! i);
             (sign, val) =
               (if sign = 0 then ((if 0 < js_and byte 64 then - 1 else 1), js_and byte 63)
                else (sign, js_shl val 7 + js_and byte 127))
         in if js_sar byte 7 = 0
            then decode_ivar_for buf (Suc i) (array_length - 1) 0 0 (array @ [val * sign])
            else decode_ivar_for buf (Suc i) array_length sign val array)
      else (array, i))"
  by pat_completeness auto
termination
  by (relation "measure (\<lambda>(buf, i, n, s, v, a). length buf - i)") auto

declare decode_ivar_for.simps [simp del]

definition decode_ivar_array :: "byte list \<Rightarrow> nat \<Rightarrow> nat option \<Rightarrow> int list \<times> nat" where
  "decode_ivar_array buf offset array_length =
     (let array_length = (case array_length of None \<Rightarrow> \<infinity> | Some n \<Rightarrow> enat n);
          offset_start = offset;
          (array, i) = decode_ivar_for buf offset array_length 0 0 []
      in (array, i - offset_start))"


text \<open>
  A self-terminated value of the wire format: bytes whose continuation bit (bit 7) is
  set, followed by one byte whose continuation bit is clear.
\<close>

definition self_terminated :: "byte list \<Rightarrow> bool" where
  "self_terminated c \<longleftrightarrow> c \<noteq> [] \<and> list_all (\<lambda>b. bit b 7) (butlast c) \<and> \<not> bit (last c) 7"

text \<open>What the decoders accumulate over the bytes of one value: seven bits per byte
  onto the running value; for the signed format the first byte gives the sign and six
  bits.\<close>

definition var_acc :: "int \<Rightarrow> byte list \<Rightarrow> int" where
  "var_acc v c = foldl (\<lambda>a b. js_shl a 7 + js_and (uint b) 127) v c"


fun ivar_val :: "byte list \<Rightarrow> int" where
  "ivar_val [] = 0"
| "ivar_val (b # c) = var_acc (js_and (uint b) 63) c * (if 0 < js_and (uint b) 64 then - 1 else 1)"

section \<open>Byte buffers and text\<close>


definition relative_index :: "int \<Rightarrow> nat \<Rightarrow> nat" where
  "relative_index k len = (if k < 0 then nat (max (int len + k) 0) else min (nat k) len)"

definition subarray :: "byte list \<Rightarrow> int \<Rightarrow> int option \<Rightarrow> byte list" where
  "subarray buf begin end =
     (let len = length buf;
          b = relative_index begin len;
          e = (case end of None \<Rightarrow> len | Some k \<Rightarrow> relative_index k len)
      in take (e - b) (drop b buf))"

definition slice :: "byte list \<Rightarrow> int \<Rightarrow> int option \<Rightarrow> byte list" where
  "slice buf begin end =
     (let len = length buf;
          b = relative_index begin len;
          e = (case end of None \<Rightarrow> len | Some k \<Rightarrow> relative_index k len)
      in take (e - b) (drop b buf))"

text \<open>\<open>buf.indexOf(x, fromIndex)\<close>: the first index at or after \<open>fromIndex\<close> that holds
  \<open>x\<close>, or \<open>-1\<close>.\<close>

function indexOf :: "byte list \<Rightarrow> byte \<Rightarrow> nat \<Rightarrow> int" where
  "indexOf buf x k =
     (if k < length buf then (if buf ! k = x then int k else indexOf buf x (Suc k)) else - 1)"
  by pat_completeness auto
termination
  by (relation "measure (\<lambda>(buf, x, k). length buf - k)") auto

declare indexOf.simps [simp del]

text \<open>
  A JavaScript string is modelled by the sequence of its UTF-8 bytes, a HOL \<open>string\<close>
  (whose characters are bytes). The platform's \<open>TextEncoder\<close> then maps a string to its
  bytes; the platform's \<open>TextDecoder\<close> (created with no options) drops a leading
  byte-order mark EF BB BF and maps bytes to characters. The replacement of malformed
  UTF-8 by U+FFFD is not modelled.
\<close>

definition txt_encoder_encode :: "string \<Rightarrow> byte list" where
  "txt_encoder_encode s = map of_char s"

definition txt_decoder_decode :: "byte list \<Rightarrow> string" where
  "txt_decoder_decode bytes =
     map (\<lambda>b. char_of (unat b))
       (if take 3 bytes = [0xEF, 0xBB, 0xBF] then drop 3 bytes else bytes)"

section \<open>Booleans, strings and raw bytes\<close>



definition encode_cstr :: "string \<Rightarrow> byte list" where
  "encode_cstr val = txt_encoder_encode (val @ [CHR 0x00])"

definition decode_cstr :: "byte list \<Rightarrow> nat \<Rightarrow> string \<times> nat" where
  "decode_cstr buf offset =
     (let offset_end = indexOf buf 0x00 offset;
          txt_arr = subarray buf (int offset) (Some offset_end);
          val = txt_decoder_decode txt_arr
      in (val, length txt_arr + 1))"





section \<open>The range resolver\<close>

text \<open>
  \<open>resolveRange(start, end, length, offset)\<close>; an absent argument is \<open>None\<close>. With no
  \<open>length\<close> the end stays absent when it was absent, and the third component is absent.
\<close>

definition resolveRange ::
  "int option \<Rightarrow> int option \<Rightarrow> int option \<Rightarrow> int option \<Rightarrow> int \<times> int option \<times> int option" where
  "resolveRange start end len offset =
     (let start = (case start of None \<Rightarrow> 0 | Some s \<Rightarrow> s);
          offset = (case offset of None \<Rightarrow> 0 | Some d \<Rightarrow> d)
      in case len of
           None \<Rightarrow>
             (start + offset, (case end of None \<Rightarrow> None | Some e \<Rightarrow> Some (e + offset)), None)
         | Some len \<Rightarrow>
             (let end = (case end of None \<Rightarrow> len | Some e \<Rightarrow> e);
                  start = start + (if 0 \<le> start then 0 else len);
                  end = end + (if 0 \<le> end then 0 else len);
                  len = end - start
              in (start + offset, Some (end + offset), Some (if 0 \<le> len then len else 0))))"

section \<open>Typed buffers: the store and the endianness swaps\<close>

text \<open>
  \<open>swapEndianess\<close> mutates its argument and \<open>swapEndianessFast\<close> allocates, so these two
  are modelled over an explicit store: a list of byte arrays, a \<open>Uint8Array\<close> being the
  index of its cell. \<open>new Uint8Array(len)\<close> appends a zero-filled cell. Reading outside an
  array gives \<open>undefined\<close> (\<open>None\<close>); writing outside is ignored, and \<open>undefined\<close> is stored
  as 0.
\<close>

type_synonym store = "byte list list"
type_synonym ref = nat

definition new_Uint8Array :: "store \<Rightarrow> nat \<Rightarrow> store \<times> ref" where
  "new_Uint8Array st len = (st @ [replicate len 0], length st)"

definition store_get :: "store \<Rightarrow> ref \<Rightarrow> int \<Rightarrow> byte option" where
  "store_get st r i =
     (if 0 \<le> i \<and> i < int (length (st ! r)) then Some ((st ! r) ! nat i) else None)"

definition store_set :: "store \<Rightarrow> ref \<Rightarrow> nat \<Rightarrow> byte option \<Rightarrow> store" where
  "store_set st r i v =
     (if i < length (st ! r)
      then st[r := (st ! r)[i := (case v of None \<Rightarrow> 0 | Some b \<Rightarrow> b)]]
      else st)"

definition reverse_subarray :: "store \<Rightarrow> ref \<Rightarrow> nat \<Rightarrow> nat \<Rightarrow> store" where
  "reverse_subarray st r i j =
     (let xs = st ! r in st[r := take i xs @ rev (take (j - i) (drop i xs)) @ drop j xs])"

text \<open>
  \<open>swapEndianess\<close>: \<open>for (let i = 0; i < len; i += bytesize) buf.subarray(i, i + bytesize).reverse()\<close>.
  With \<open>bytesize = 0\<close> and a non-empty buffer the loop never ends, so the loop is a partial
  function and \<open>None\<close> stands for not returning.
\<close>

partial_function (option) swapEndianess_for ::
  "store \<Rightarrow> ref \<Rightarrow> nat \<Rightarrow> nat \<Rightarrow> nat \<Rightarrow> store option" where
  "swapEndianess_for st buf len bytesize i =
     (if i < len
      then swapEndianess_for (reverse_subarray st buf i (i + bytesize)) buf len bytesize (i + bytesize)
      else Some st)"

declare swapEndianess_for.simps [code]

definition swapEndianess :: "store \<Rightarrow> ref \<Rightarrow> nat \<Rightarrow> (store \<times> ref) option" where
  "swapEndianess st buf bytesize =
     (let len = length (st ! buf)
      in case swapEndianess_for st buf len bytesize 0 of
           None \<Rightarrow> None
         | Some st' \<Rightarrow> Some (st', buf))"

text \<open>
  \<open>swapEndianessFast\<close>. The inner loop is
  \<open>for (let i = offset; i < len + offset; i += bs) swapped_buf[i] = buf[i + a]\<close>; it is only
  entered from the outer loop, under \<open>offset < bs\<close>, hence with \<open>0 < bs\<close>, which the model
  writes into the test to make the recursion total.
\<close>

function swap_fast_inner ::
  "store \<Rightarrow> ref \<Rightarrow> ref \<Rightarrow> nat \<Rightarrow> nat \<Rightarrow> int \<Rightarrow> nat \<Rightarrow> nat \<Rightarrow> store" where
  "swap_fast_inner st buf swapped_buf len bs a offset i =
     (if 0 < bs \<and> i < len + offset
      then swap_fast_inner (store_set st swapped_buf i (store_get st buf (int i + a)))
             buf swapped_buf len bs a offset (i + bs)
      else st)"
  by pat_completeness auto
termination
  by (relation "measure (\<lambda>(st, buf, sw, len, bs, a, offset, i). len + offset - i)") auto

declare swap_fast_inner.simps [simp del]

function swap_fast_outer ::
  "store \<Rightarrow> ref \<Rightarrow> ref \<Rightarrow> nat \<Rightarrow> nat \<Rightarrow> nat \<Rightarrow> store" where
  "swap_fast_outer st buf swapped_buf len bs offset =
     (if offset < bs
      then (let a = int bs - 1 - int offset * 2
            in swap_fast_outer (swap_fast_inner st buf swapped_buf len bs a offset offset)
                 buf swapped_buf len bs (Suc offset))
      else st)"
  by pat_completeness auto
termination
  by (relation "measure (\<lambda>(st, buf, sw, len, bs, offset). bs - offset)") auto

declare swap_fast_outer.simps [simp del]

definition swapEndianessFast :: "store \<Rightarrow> ref \<Rightarrow> nat \<Rightarrow> store \<times> ref" where
  "swapEndianessFast st buf bytesize =
     (let len = length (st ! buf);
          (st, swapped_buf) = new_Uint8Array st len;
          bs = bytesize
      in (swap_fast_outer st buf swapped_buf len bs 0, swapped_buf))"

text \<open>
  The value seen by the codec, which passes a fresh array and keeps only the result:
  \<open>swapEndianessFast\<close> run on a store that holds just \<open>buf\<close>.
\<close>

definition swapEndianessFast_bytes :: "byte list \<Rightarrow> nat \<Rightarrow> byte list" where
  "swapEndianessFast_bytes buf bytesize =
     (case swapEndianessFast [buf] 0 bytesize of (st, swapped_buf) \<Rightarrow> st ! swapped_buf)"

text \<open>
  The specification of both swaps, in the words of the documentation: the buffer is cut
  into elements of \<open>w\<close> bytes and the byte order of every element is reversed.
\<close>

function elements_of :: "nat \<Rightarrow> 'a list \<Rightarrow> 'a list list" where
  "elements_of w xs = (if w = 0 \<or> xs = [] then [] else take w xs # elements_of w (drop w xs))"
  by pat_completeness auto
termination
  by (relation "measure (\<lambda>(w, xs). length xs)") auto

declare elements_of.simps [simp del]

definition swap_elements :: "nat \<Rightarrow> 'a list \<Rightarrow> 'a list" where
  "swap_elements w xs = concat (map rev (elements_of w xs))"

text \<open>Notions used in the proofs: the position \<open>mirror bs j\<close> that byte \<open>j\<close> is copied from,
  the array read at every mirrored position, and a read that gives 0 outside the array.\<close>

definition mirror :: "nat \<Rightarrow> nat \<Rightarrow> nat" where
  "mirror bs j = j - j mod bs + (bs - 1 - j mod bs)"

definition mirrored :: "nat \<Rightarrow> byte list \<Rightarrow> byte list" where
  "mirrored bs xs = map (\<lambda>j. xs ! mirror bs j) [0..<length xs]"

definition fetched :: "byte list \<Rightarrow> int \<Rightarrow> byte" where
  "fetched B k = (if 0 \<le> k \<and> k < int (length B) then B ! nat k else 0)"


section \<open>Typed arrays\<close>

text \<open>
  \<open>typed_array_constructor_of\<close> returns the constructor named by the first two characters
  of the type string (or the clamped one when the third character is \<open>c\<close>); the second
  component is what it writes with \<open>console.error\<close>. The message is an ordinary string
  literal in the source, so its \<open>${type}\<close> is not filled in.
\<close>

datatype typed_array_constructor =
  Uint8Array | Uint8ClampedArray | Uint16Array | Uint32Array
| Int8Array | Int16Array | Int32Array | Float32Array | Float64Array







fun BYTES_PER_ELEMENT :: "typed_array_constructor \<Rightarrow> nat" where
  "BYTES_PER_ELEMENT Uint8Array = 1"
| "BYTES_PER_ELEMENT Uint8ClampedArray = 1"
| "BYTES_PER_ELEMENT Int8Array = 1"
| "BYTES_PER_ELEMENT Uint16Array = 2"
| "BYTES_PER_ELEMENT Int16Array = 2"
| "BYTES_PER_ELEMENT Uint32Array = 4"
| "BYTES_PER_ELEMENT Int32Array = 4"
| "BYTES_PER_ELEMENT Float32Array = 4"
| "BYTES_PER_ELEMENT Float64Array = 8"



definition element_bytes :: "bool \<Rightarrow> nat \<Rightarrow> int \<Rightarrow> byte list" where
  "element_bytes little n u =
     (let bytes = map (\<lambda>k. word_of_int (u div 256 ^ k)) [0..<n]
      in if little then bytes else rev bytes)"

definition element_of_bytes :: "bool \<Rightarrow> byte list \<Rightarrow> int" where
  "element_of_bytes little bytes =
     foldr (\<lambda>b acc. uint b + 256 * acc) (if little then bytes else rev bytes) 0"

fun those_list :: "'a option list \<Rightarrow> 'a list option" where
  "those_list [] = Some []"
| "those_list (x # xs) =
     (case x of None \<Rightarrow> None
      | Some y \<Rightarrow> (case those_list xs of None \<Rightarrow> None | Some ys \<Rightarrow> Some (y # ys)))"



section \<open>The fixed-width numeric codec\<close>


definition swapEndianessFast_num :: "byte list \<Rightarrow> nat option \<Rightarrow> byte list" where
  "swapEndianessFast_num buf bytesize =
     (case bytesize of
        None \<Rightarrow> replicate (length buf) 0
      | Some bs \<Rightarrow> swapEndianessFast_bytes buf bs)"






section \<open>The primitive dispatch\<close>





section \<open>The values that round-trip\<close>






text \<open>Notions used in the proofs: the little-endian bytes of a bit pattern, the range of
  values each constructor stores without change, and, for the table of kinds, what the
  dispatch and the numeric codec compute from the type string of a kind.\<close>

definition le_bytes :: "nat \<Rightarrow> int \<Rightarrow> byte list" where
  "le_bytes n u = map (\<lambda>k. word_of_int (u div 256 ^ k)) [0..<n]"







section \<open>Boundary tables of the encoders\<close>

text \<open>
  Claim C2. The unsigned variable-length encoder produces the boundary table of its
  documentation: 0 gives [0x00], 127 gives [0x7F], 128 gives [0x81, 0x00], 16383 gives
  [0xFF, 0x7F] and 16384 gives [0x81, 0x80, 0x00].
\<close>

theorem encode_uvar_boundary_table:
  "encode_uvar 0 = [0x00] \<and>
   encode_uvar 127 = [0x7F] \<and>
   encode_uvar 128 = [0x81, 0x00] \<and>
   encode_uvar 16383 = [0xFF, 0x7F] \<and>
   encode_uvar 16384 = [0x81, 0x80, 0x00]"
  by (simp add: encode_uvar_def encode_uvar_array_def Uint8Array_from_def uvar_bytes_def
      uvar_do_while.simps js_and_def js_sar_def to_int32_def)

lemma clear_first_continuation_nonempty [simp]: "clear_first_continuation xs \<noteq> []"
  by (cases xs) simp_all

lemma hd_rev_clear_first:
  "hd (rev (clear_first_continuation (xs @ [l]))) = (if xs = [] then js_and l 127 else l)"
  by (cases xs) simp_all

lemma bit6_to_int32: "bit (to_int32 x) 6 = bit x 6"
  by (simp add: to_int32_def bit_simps)

lemma bit6_lead: "bit (js_or (js_and v 63) (if s then 192 else 128)) 6 = s"
  by (simp add: js_or_def js_and_def bit_simps bit6_to_int32)

lemma bit6_clear: "bit (js_and x 127) 6 = bit x 6"
  by (simp add: js_and_def bit_simps bit6_to_int32)

lemma bit6_word: "bit (word_of_int x :: byte) 6 = bit x 6"
  by (simp add: bit_simps)



lemma encode_ivar_eq: "encode_ivar v = map word_of_int (ivar_bytes v)"
  by (simp add: encode_ivar_def encode_ivar_array_def Uint8Array_from_def)

lemma ivar_bytes_sign_bit: "ivar_bytes v \<noteq> [] \<and> (bit (hd (ivar_bytes v)) 6 \<longleftrightarrow> v < 0)"
proof -
  obtain w l where wl: "ivar_while (v * (if 0 \<le> v then 1 else - 1)) [] = (w, l)"
    by (cases "ivar_while (v * (if 0 \<le> v then 1 else - 1)) []")
  let ?lead = "js_or (js_and w 63) (if v < 0 then 192 else 128)"
  have eq: "ivar_bytes v = rev (clear_first_continuation (l @ [?lead]))"
    using wl by (cases "0 \<le> v") (simp_all add: ivar_bytes_def Let_def)
  have b: "bit ?lead 6 \<longleftrightarrow> v < 0" by (rule bit6_lead)
  show ?thesis
    unfolding eq hd_rev_clear_first using b by (simp add: bit6_clear)
qed

text \<open>
  Claim C3. The signed variable-length encoder gives one byte for 0, namely 0x00, and
  63 gives [0x3F], -63 gives [0x7F], 8191 gives [0xBF, 0x7F], -8191 gives [0xFF, 0x7F];
  for every integer the encoding is not empty and the second-highest bit (bit 6) of its
  leading byte is set exactly when the value is negative.
\<close>

theorem encode_ivar_boundary_table_and_sign:
  "encode_ivar 0 = [0x00] \<and>
   encode_ivar 63 = [0x3F] \<and>
   encode_ivar (- 63) = [0x7F] \<and>
   encode_ivar 8191 = [0xBF, 0x7F] \<and>
   encode_ivar (- 8191) = [0xFF, 0x7F] \<and>
   encode_ivar v \<noteq> [] \<and> (bit (hd (encode_ivar v)) 6 \<longleftrightarrow> v < 0)"
proof -
  have tab: "encode_ivar 0 = [0x00] \<and> encode_ivar 63 = [0x3F] \<and> encode_ivar (- 63) = [0x7F] \<and>
      encode_ivar 8191 = [0xBF, 0x7F] \<and> encode_ivar (- 8191) = [0xFF, 0x7F]"
    by (simp add: encode_ivar_def encode_ivar_array_def Uint8Array_from_def ivar_bytes_def
        ivar_while.simps js_and_def js_or_def js_sar_def to_int32_def)
  have sgn: "encode_ivar v \<noteq> [] \<and> (bit (hd (encode_ivar v)) 6 \<longleftrightarrow> v < 0)"
    using ivar_bytes_sign_bit [of v] by (simp add: encode_ivar_eq hd_map bit6_word)
  from tab sgn show ?thesis by simp
qed


section \<open>The range resolver: what it guarantees\<close>

text \<open>
  Claim C5, as stated, fails: the resolved start can exceed the resolved end. At
  \<open>resolveRange(3, 1, 10)\<close> the result is start 3, end 1 and span 0.
\<close>

theorem resolveRange_order_counterexample:
  "resolveRange (Some 3) (Some 1) (Some 10) None = (3, Some 1, Some 0) \<and> \<not> (3 :: int) \<le> 1"
  by (simp add: resolveRange_def)

text \<open>
  Claim C5, amended. For a known non-negative length, an absent start is 0 and an
  absent end is the length; a negative start or end is replaced by length + value, once
  and with no clamping; the span is end - start, or 0 when that is negative; the offset
  is added to start and end afterwards. The resolved start is non-negative when the
  given start is at least -length, and likewise the end; start \<le> end is not guaranteed.
  The function returns for every input.
\<close>

theorem resolveRange_known_length:
  fixes len :: int
  assumes "0 \<le> len"
  shows
    "(let s = (case start of None \<Rightarrow> 0 | Some a \<Rightarrow> if 0 \<le> a then a else len + a);
          e = (case end of None \<Rightarrow> len | Some b \<Rightarrow> if 0 \<le> b then b else len + b);
          d = (case offset of None \<Rightarrow> 0 | Some c \<Rightarrow> c)
      in resolveRange start end (Some len) offset = (s + d, Some (e + d), Some (max 0 (e - s))) \<and>
         ((case start of None \<Rightarrow> True | Some a \<Rightarrow> - len \<le> a) \<longrightarrow> 0 \<le> s) \<and>
         ((case end of None \<Rightarrow> True | Some b \<Rightarrow> - len \<le> b) \<longrightarrow> 0 \<le> e))"
  using assms by (auto simp: resolveRange_def Let_def split: option.splits)

theorem resolveRange_known_length_witness:
  "(0 :: int) \<le> 10 \<and> resolveRange (Some (- 2)) None (Some 10) (Some 100) = (108, Some 110, Some 2)"
proof -
  have h: "(0 :: int) \<le> 10" by simp
  show ?thesis
    using h resolveRange_known_length [OF h, of "Some (- 2)" None "Some 100"]
    by (simp add: Let_def)
qed

section \<open>The c-string codec\<close>

lemma indexOf_found_aux:
  assumes "offset \<le> k" "k < length buf" "buf ! k = x"
    and "\<forall>j. offset \<le> j \<and> j < k \<longrightarrow> buf ! j \<noteq> x"
  shows "indexOf buf x offset = int k"
  using assms
proof (induction buf x offset rule: indexOf.induct)
  case (1 buf x i)
  show ?case
  proof (cases "i = k")
    case True
    with 1 show ?thesis by (simp add: indexOf.simps)
  next
    case False
    with 1 have "i < k" "buf ! i \<noteq> x" by auto
    with 1 show ?thesis by (subst indexOf.simps) auto
  qed
qed

lemma indexOf_absent_aux:
  assumes "\<forall>j. offset \<le> j \<and> j < length buf \<longrightarrow> buf ! j \<noteq> x"
  shows "indexOf buf x offset = - 1"
  using assms
proof (induction buf x offset rule: indexOf.induct)
  case (1 buf x i)
  then show ?case by (subst indexOf.simps) auto
qed

lemma nth_in_window:
  assumes "offset \<le> j" "j < k" "k \<le> length buf"
  shows "buf ! j \<in> set (take (k - offset) (drop offset buf))"
proof -
  have "take (k - offset) (drop offset buf) ! (j - offset) = buf ! j"
    using assms by simp
  moreover have "j - offset < length (take (k - offset) (drop offset buf))"
    using assms by simp
  ultimately show ?thesis by (metis nth_mem)
qed

lemma indexOf_found:
  assumes "offset \<le> k" "k < length buf" "buf ! k = x"
    and "x \<notin> set (take (k - offset) (drop offset buf))"
  shows "indexOf buf x offset = int k"
proof (rule indexOf_found_aux [OF assms(1-3)], intro allI impI)
  fix j assume "offset \<le> j \<and> j < k"
  then have "buf ! j \<in> set (take (k - offset) (drop offset buf))"
    using assms(2) by (intro nth_in_window) simp_all
  with assms(4) show "buf ! j \<noteq> x" by auto
qed

lemma indexOf_absent:
  assumes "x \<notin> set (drop offset buf)"
  shows "indexOf buf x offset = - 1"
proof (rule indexOf_absent_aux, intro allI impI)
  fix j assume "offset \<le> j \<and> j < length buf"
  then have "buf ! j \<in> set (take (length buf - offset) (drop offset buf))"
    by (intro nth_in_window) simp_all
  with assms show "buf ! j \<noteq> x" by auto
qed

text \<open>
  Claim C7. \<open>encode_cstr\<close> gives the text bytes followed by one 0x00; \<open>decode_cstr\<close>
  finds the first 0x00 at or after the offset (index \<open>k\<close>), decodes the bytes before it
  and consumes through it inclusive. "hi" encodes to [104, 105, 0], which decodes from
  offset 0 to ("hi", 3).
\<close>

theorem cstr_codec:
  "encode_cstr s = txt_encoder_encode s @ [0x00] \<and>
   encode_cstr ''hi'' = [104, 105, 0] \<and>
   decode_cstr [104, 105, 0] 0 = (''hi'', 3) \<and>
   (offset \<le> k \<and> k < length buf \<and> buf ! k = 0x00 \<and>
    0x00 \<notin> set (take (k - offset) (drop offset buf)) \<longrightarrow>
      decode_cstr buf offset =
        (txt_decoder_decode (take (k - offset) (drop offset buf)), k - offset + 1))"
proof -
  have a: "encode_cstr s = txt_encoder_encode s @ [0x00]"
    by (simp add: encode_cstr_def txt_encoder_encode_def)
  have b: "encode_cstr ''hi'' = [104, 105, 0]"
    by (simp add: encode_cstr_def txt_encoder_encode_def)
  have c: "decode_cstr [104, 105, 0] 0 = (''hi'', 3)"
    by code_simp
  have d: "decode_cstr buf offset =
        (txt_decoder_decode (take (k - offset) (drop offset buf)), k - offset + 1)"
    if "offset \<le> k" "k < length buf" "buf ! k = 0x00"
       "0x00 \<notin> set (take (k - offset) (drop offset buf))"
    using that indexOf_found [OF that]
    by (simp add: decode_cstr_def subarray_def relative_index_def Let_def)
  from a b c d show ?thesis by blast
qed

theorem cstr_codec_witness:
  "decode_cstr [9, 65, 66, 0, 7, 0] 1 = (''AB'', 3)"
proof -
  have "txt_decoder_decode [65, 66] = ''AB''" by code_simp
  then show ?thesis
    using cstr_codec [of "[]" 1 3 "[9, 65, 66, 0, 7, 0]"] by simp
qed

text \<open>
  Claim C9, as stated, fails when no byte is left at the offset: on the empty buffer,
  which holds no 0x00, \<open>decode_cstr\<close> reports 1 byte consumed, not the 0 bytes that remain.
\<close>

theorem decode_cstr_unterminated_counterexample:
  "0x00 \<notin> set (drop 0 ([] :: byte list)) \<and> decode_cstr [] 0 = ([], 1) \<and>
   (1 :: nat) \<noteq> length ([] :: byte list) - 0"
  by (simp add: decode_cstr_def subarray_def relative_index_def indexOf.simps
      txt_decoder_decode_def)

text \<open>
  Claim C9, amended. If the buffer holds no 0x00 at or after the offset, \<open>decode_cstr\<close>
  still returns: the decoded string is the text of the bytes from the offset up to but
  excluding the final byte of the buffer; when at least one byte is left at the offset,
  the bytes consumed are all the bytes from the offset to the end of the buffer; when
  none is left, the string is empty and 1 byte is reported consumed.
\<close>

theorem decode_cstr_unterminated:
  assumes "0x00 \<notin> set (drop offset buf)"
  shows "decode_cstr buf offset =
    (txt_decoder_decode (butlast (drop offset buf)),
     (if offset < length buf then length buf - offset else 1))"
proof -
  have n: "nat (max (int (length buf) - 1) 0) = length buf - 1" by simp
  have "subarray buf (int offset) (Some (- 1)) = butlast (drop offset buf)"
    by (simp add: subarray_def relative_index_def Let_def n butlast_conv_take min_def)
  with indexOf_absent [OF assms] show ?thesis
    by (auto simp add: decode_cstr_def Let_def)
qed

theorem decode_cstr_unterminated_witness:
  "0x00 \<notin> set (drop 1 [65, 66, 67 :: byte]) \<and> decode_cstr [65, 66, 67] 1 = (''B'', 2)"
proof -
  have h: "0x00 \<notin> set (drop 1 [65, 66, 67 :: byte])" by simp
  have "txt_decoder_decode [66] = ''B''" by code_simp
  then show ?thesis
    using h decode_cstr_unterminated [OF h] by simp
qed


section \<open>The variable-length decoders: bytes consumed\<close>

lemma uint_byte_range: "0 \<le> uint (b :: byte) \<and> uint b < 256"
  using uint_bounded [of b] by simp

lemma to_int32_uint: "to_int32 (uint (b :: byte)) = uint b"
proof (rule to_int32_id)
  have "(0 :: int) \<le> uint b" by simp
  moreover have "- (2 ^ 31) \<le> (0 :: int)" by simp
  ultimately show "- (2 ^ 31) \<le> uint b" by (rule order_trans [rotated])
  show "uint b < 2 ^ 31" using uint_byte_range [of b] by simp
qed

lemma js_sar_byte: "js_sar (uint (b :: byte)) 7 = 0 \<longleftrightarrow> \<not> bit b 7"
proof -
  have "uint b div 128 = 0 \<longleftrightarrow> even (uint b div 128)"
    using uint_byte_range [of b] by presburger
  then have "drop_bit 7 (uint b) = 0 \<longleftrightarrow> \<not> bit (uint b) 7"
    by (simp add: bit_iff_odd_drop_bit drop_bit_eq_div)
  then show ?thesis by (simp add: js_sar_def to_int32_uint bit_uint_iff)
qed

lemma decode_uvar_for_end:
  "i \<le> length buf \<Longrightarrow> snd (decode_uvar_for buf i \<infinity> v arr) = length buf"
proof (induction buf i "\<infinity> :: enat" v arr rule: decode_uvar_for.induct)
  case (1 buf i v arr)
  show ?case
  proof (cases "i < length buf")
    case True
    then have "Suc i \<le> length buf" by simp
    with 1 True show ?thesis
      by (subst decode_uvar_for.simps) (simp add: Let_def)
  next
    case False
    with 1 show ?thesis by (subst decode_uvar_for.simps) simp
  qed
qed

lemma decode_ivar_for_end:
  "i \<le> length buf \<Longrightarrow> snd (decode_ivar_for buf i \<infinity> s v arr) = length buf"
proof (induction buf i "\<infinity> :: enat" s v arr rule: decode_ivar_for.induct)
  case (1 buf i s v arr)
  show ?case
  proof (cases "i < length buf")
    case True
    then have "Suc i \<le> length buf" by simp
    with 1 True show ?thesis
      by (subst decode_ivar_for.simps) (simp add: Let_def split: prod.splits)
  next
    case False
    with 1 show ?thesis by (subst decode_ivar_for.simps) simp
  qed
qed


lemma self_terminated_Cons:
  "self_terminated (b # c) \<longleftrightarrow> (if c = [] then \<not> bit b 7 else bit b 7 \<and> self_terminated c)"
  by (auto simp: self_terminated_def)

lemma decode_uvar_for_chunk:
  assumes "self_terminated c" "0 < n"
  shows "decode_uvar_for (pre @ c @ rest) (length pre) n v arr =
         decode_uvar_for (pre @ c @ rest) (length pre + length c) (n - 1) 0 (arr @ [var_acc v c])"
  using assms
proof (induction c arbitrary: pre v)
  case Nil
  then show ?case by (simp add: self_terminated_def)
next
  case (Cons b c)
  have nth: "(pre @ (b # c) @ rest) ! length pre = b" by simp
  have len: "length pre < length (pre @ (b # c) @ rest)" by simp
  show ?case
  proof (cases "c = []")
    case True
    with Cons.prems have "\<not> bit b 7" by (simp add: self_terminated_Cons)
    with Cons.prems(2) True nth len show ?thesis
      by (subst decode_uvar_for.simps) (simp add: Let_def js_sar_byte var_acc_def)
  next
    case False
    with Cons.prems have b: "bit b 7" and c: "self_terminated c" by (simp_all add: self_terminated_Cons)
    have step: "decode_uvar_for (pre @ (b # c) @ rest) (length pre) n v arr =
      decode_uvar_for (pre @ (b # c) @ rest) (Suc (length pre)) n (js_shl v 7 + js_and (uint b) 127) arr"
      using Cons.prems(2) b nth len
      by (subst decode_uvar_for.simps) (simp add: Let_def js_sar_byte)
    have "decode_uvar_for ((pre @ [b]) @ c @ rest) (length (pre @ [b])) n (js_shl v 7 + js_and (uint b) 127) arr =
       decode_uvar_for ((pre @ [b]) @ c @ rest) (length (pre @ [b]) + length c) (n - 1) 0
         (arr @ [var_acc (js_shl v 7 + js_and (uint b) 127) c])"
      by (rule Cons.IH [OF c Cons.prems(2)])
    with step show ?thesis by (simp add: var_acc_def)
  qed
qed

lemma decode_uvar_for_chunks:
  assumes "list_all self_terminated vs" "enat (length vs) \<le> n"
  shows "decode_uvar_for (pre @ concat vs @ rest) (length pre) n 0 arr =
         decode_uvar_for (pre @ concat vs @ rest) (length pre + length (concat vs))
           (n - enat (length vs)) 0 (arr @ map (var_acc 0) vs)"
  using assms
proof (induction vs arbitrary: pre n arr)
  case Nil
  then show ?case by (simp add: zero_enat_def [symmetric])
next
  case (Cons c vs)
  from Cons.prems have c: "self_terminated c" and vs: "list_all self_terminated vs" by simp_all
  from Cons.prems(2) have n0: "0 < n" by (cases n) (simp_all add: zero_enat_def)
  from Cons.prems(2) have n1: "enat (length vs) \<le> n - 1"
    by (cases n) (simp_all add: one_enat_def)
  have n2: "n - 1 - enat (length vs) = n - enat (length (c # vs))"
    by (cases n) (simp_all add: one_enat_def)
  have "decode_uvar_for (pre @ c @ (concat vs @ rest)) (length pre) n 0 arr =
        decode_uvar_for (pre @ c @ (concat vs @ rest)) (length pre + length c) (n - 1) 0 (arr @ [var_acc 0 c])"
    by (rule decode_uvar_for_chunk [OF c n0])
  also have "\<dots> = decode_uvar_for ((pre @ c) @ concat vs @ rest) (length (pre @ c)) (n - 1) 0 (arr @ [var_acc 0 c])"
    by simp
  also have "\<dots> = decode_uvar_for ((pre @ c) @ concat vs @ rest) (length (pre @ c) + length (concat vs))
           (n - 1 - enat (length vs)) 0 ((arr @ [var_acc 0 c]) @ map (var_acc 0) vs)"
    by (rule Cons.IH [OF vs n1])
  finally show ?case by (simp add: n2 add.assoc)
qed


lemma decode_ivar_for_cont:
  assumes "self_terminated c" "0 < n" "sign \<noteq> 0"
  shows "decode_ivar_for (pre @ c @ rest) (length pre) n sign v arr =
         decode_ivar_for (pre @ c @ rest) (length pre + length c) (n - 1) 0 0
           (arr @ [var_acc v c * sign])"
  using assms
proof (induction c arbitrary: pre v)
  case Nil
  then show ?case by (simp add: self_terminated_def)
next
  case (Cons b c)
  have nth: "(pre @ (b # c) @ rest) ! length pre = b" by simp
  have len: "length pre < length (pre @ (b # c) @ rest)" by simp
  show ?case
  proof (cases "c = []")
    case True
    with Cons.prems have "\<not> bit b 7" by (simp add: self_terminated_Cons)
    with Cons.prems(2,3) True nth len show ?thesis
      by (subst decode_ivar_for.simps) (simp add: Let_def js_sar_byte var_acc_def)
  next
    case False
    with Cons.prems have b: "bit b 7" and c: "self_terminated c"
      by (simp_all add: self_terminated_Cons)
    have step: "decode_ivar_for (pre @ (b # c) @ rest) (length pre) n sign v arr =
      decode_ivar_for (pre @ (b # c) @ rest) (Suc (length pre)) n sign
        (js_shl v 7 + js_and (uint b) 127) arr"
      using Cons.prems(2,3) b nth len
      by (subst decode_ivar_for.simps) (simp add: Let_def js_sar_byte)
    have "decode_ivar_for ((pre @ [b]) @ c @ rest) (length (pre @ [b])) n sign
            (js_shl v 7 + js_and (uint b) 127) arr =
       decode_ivar_for ((pre @ [b]) @ c @ rest) (length (pre @ [b]) + length c) (n - 1) 0 0
         (arr @ [var_acc (js_shl v 7 + js_and (uint b) 127) c * sign])"
      by (rule Cons.IH [OF c Cons.prems(2,3)])
    with step show ?thesis by (simp add: var_acc_def)
  qed
qed

lemma decode_ivar_for_chunk:
  assumes "self_terminated c" "0 < n"
  shows "decode_ivar_for (pre @ c @ rest) (length pre) n 0 v arr =
         decode_ivar_for (pre @ c @ rest) (length pre + length c) (n - 1) 0 0
           (arr @ [ivar_val c])"
proof (cases c)
  case Nil
  with assms show ?thesis by (simp add: self_terminated_def)
next
  case (Cons b c')
  have nth: "(pre @ (b # c') @ rest) ! length pre = b" by simp
  have len: "length pre < length (pre @ (b # c') @ rest)" by simp
  let ?s = "if 0 < js_and (uint b) 64 then - 1 else 1 :: int"
  show ?thesis
  proof (cases "c' = []")
    case True
    with assms Cons have "\<not> bit b 7" by (simp add: self_terminated_Cons)
    with assms(2) True nth len show ?thesis unfolding Cons
      by (subst decode_ivar_for.simps) (simp add: Let_def js_sar_byte var_acc_def)
  next
    case False
    with assms Cons have b: "bit b 7" and c: "self_terminated c'"
      by (simp_all add: self_terminated_Cons)
    have step: "decode_ivar_for (pre @ (b # c') @ rest) (length pre) n 0 v arr =
      decode_ivar_for (pre @ (b # c') @ rest) (Suc (length pre)) n ?s (js_and (uint b) 63) arr"
      using assms(2) b nth len
      by (subst decode_ivar_for.simps) (simp add: Let_def js_sar_byte)
    have s0: "?s \<noteq> 0" by simp
    have "decode_ivar_for ((pre @ [b]) @ c' @ rest) (length (pre @ [b])) n ?s (js_and (uint b) 63) arr =
       decode_ivar_for ((pre @ [b]) @ c' @ rest) (length (pre @ [b]) + length c') (n - 1) 0 0
         (arr @ [var_acc (js_and (uint b) 63) c' * ?s])"
      by (rule decode_ivar_for_cont [OF c assms(2) s0])
    with step show ?thesis unfolding Cons by simp
  qed
qed

lemma decode_ivar_for_chunks:
  assumes "list_all self_terminated vs" "enat (length vs) \<le> n"
  shows "decode_ivar_for (pre @ concat vs @ rest) (length pre) n 0 0 arr =
         decode_ivar_for (pre @ concat vs @ rest) (length pre + length (concat vs))
           (n - enat (length vs)) 0 0 (arr @ map ivar_val vs)"
  using assms
proof (induction vs arbitrary: pre n arr)
  case Nil
  then show ?case by (simp add: zero_enat_def [symmetric])
next
  case (Cons c vs)
  from Cons.prems have c: "self_terminated c" and vs: "list_all self_terminated vs" by simp_all
  from Cons.prems(2) have n0: "0 < n" by (cases n) (simp_all add: zero_enat_def)
  from Cons.prems(2) have n1: "enat (length vs) \<le> n - 1"
    by (cases n) (simp_all add: one_enat_def)
  have n2: "n - 1 - enat (length vs) = n - enat (length (c # vs))"
    by (cases n) (simp_all add: one_enat_def)
  have "decode_ivar_for (pre @ c @ (concat vs @ rest)) (length pre) n 0 0 arr =
        decode_ivar_for (pre @ c @ (concat vs @ rest)) (length pre + length c) (n - 1) 0 0
          (arr @ [ivar_val c])"
    by (rule decode_ivar_for_chunk [OF c n0])
  also have "\<dots> = decode_ivar_for ((pre @ c) @ concat vs @ rest) (length (pre @ c)) (n - 1) 0 0
      (arr @ [ivar_val c])"
    by simp
  also have "\<dots> = decode_ivar_for ((pre @ c) @ concat vs @ rest)
      (length (pre @ c) + length (concat vs)) (n - 1 - enat (length vs)) 0 0
      ((arr @ [ivar_val c]) @ map ivar_val vs)"
    by (rule Cons.IH [OF vs n1])
  finally show ?case by (simp add: n2 add.assoc)
qed

lemma decode_uvar_for_stop: "decode_uvar_for buf i 0 v arr = (arr, i)"
  by (subst decode_uvar_for.simps) simp

lemma decode_ivar_for_stop: "decode_ivar_for buf i 0 s v arr = (arr, i)"
  by (subst decode_ivar_for.simps) simp

lemma decode_uvar_array_counted:
  assumes "list_all self_terminated vs"
  shows "decode_uvar_array (pre @ concat vs @ rest) (length pre) (Some (length vs)) =
         (map (var_acc 0) vs, length (concat vs))"
  using decode_uvar_for_chunks [OF assms order_refl, of pre rest "[]"]
  by (simp add: decode_uvar_array_def decode_uvar_for_stop zero_enat_def [symmetric])

lemma decode_ivar_array_counted:
  assumes "list_all self_terminated vs"
  shows "decode_ivar_array (pre @ concat vs @ rest) (length pre) (Some (length vs)) =
         (map ivar_val vs, length (concat vs))"
  using decode_ivar_for_chunks [OF assms order_refl, of pre rest "[]"]
  by (simp add: decode_ivar_array_def decode_ivar_for_stop zero_enat_def [symmetric])

lemma decode_uvar_array_uncounted:
  assumes "offset \<le> length buf"
  shows "snd (decode_uvar_array buf offset None) = length buf - offset"
  using decode_uvar_for_end [OF assms, of 0 "[]"]
  by (cases "decode_uvar_for buf offset \<infinity> 0 []") (simp add: decode_uvar_array_def)

lemma decode_ivar_array_uncounted:
  assumes "offset \<le> length buf"
  shows "snd (decode_ivar_array buf offset None) = length buf - offset"
  using decode_ivar_for_end [OF assms, of 0 0 "[]"]
  by (cases "decode_ivar_for buf offset \<infinity> 0 0 []") (simp add: decode_ivar_array_def)

text \<open>
  Claim C6. With no element count, \<open>decode_uvar_array\<close> and \<open>decode_ivar_array\<close> stop at
  the end of the buffer and report the buffer length minus the starting offset (for an
  offset inside the buffer or at its end). With an element count \<open>n\<close> and a buffer that
  holds \<open>n\<close> self-terminated values at the offset, they consume exactly the bytes of these
  values, and the result does not depend on the bytes after them, whatever their
  continuation bits.
\<close>

theorem var_array_decoders_consume:
  "(offset \<le> length buf \<longrightarrow>
      snd (decode_uvar_array buf offset None) = length buf - offset \<and>
      snd (decode_ivar_array buf offset None) = length buf - offset) \<and>
   (list_all self_terminated vs \<longrightarrow>
      snd (decode_uvar_array (pre @ concat vs @ rest) (length pre) (Some (length vs)))
        = length (concat vs) \<and>
      decode_uvar_array (pre @ concat vs @ rest) (length pre) (Some (length vs))
        = decode_uvar_array (pre @ concat vs) (length pre) (Some (length vs)) \<and>
      snd (decode_ivar_array (pre @ concat vs @ rest) (length pre) (Some (length vs)))
        = length (concat vs) \<and>
      decode_ivar_array (pre @ concat vs @ rest) (length pre) (Some (length vs))
        = decode_ivar_array (pre @ concat vs) (length pre) (Some (length vs)))"
  using decode_uvar_array_counted [of vs pre rest] decode_uvar_array_counted [of vs pre "[]"]
    decode_ivar_array_counted [of vs pre rest] decode_ivar_array_counted [of vs pre "[]"]
  by (simp add: decode_uvar_array_uncounted decode_ivar_array_uncounted)

theorem var_array_decoders_consume_witness:
  "snd (decode_uvar_array [7, 0x81, 0x00, 0xFF] 1 None) = 3 \<and>
   snd (decode_ivar_array [7, 0x81, 0x00, 0xFF] 1 None) = 3 \<and>
   decode_uvar_array [9, 0x81, 0x00, 0x05, 0xFF, 0xFF] 1 (Some 2) = ([128, 5], 3) \<and>
   decode_ivar_array [9, 0xC1, 0x00, 0x05, 0xFF, 0xFF] 1 (Some 2) = ([- 128, 5], 3)"
proof -
  have st: "list_all self_terminated [[0x81, 0x00], [0x05]]"
           "list_all self_terminated [[0xC1, 0x00], [0x05]]"
    by (simp_all add: self_terminated_def bit_simps)
  have a: "decode_uvar_array [9, 0x81, 0x00, 0x05] 1 (Some 2) = ([128, 5], 3)" by code_simp
  have b: "decode_ivar_array [9, 0xC1, 0x00, 0x05] 1 (Some 2) = ([- 128, 5], 3)" by code_simp
  show ?thesis
    using var_array_decoders_consume [of 1 "[7, 0x81, 0x00, 0xFF]" "[[0x81, 0x00], [0x05]]" "[9]" "[0xFF, 0xFF]"]
      var_array_decoders_consume [of 1 "[7, 0x81, 0x00, 0xFF]" "[[0xC1, 0x00], [0x05]]" "[9]" "[0xFF, 0xFF]"]
      st a b
    by (simp add: eval_nat_numeral)
qed



section \<open>The endianness swaps\<close>

lemma store_set_frame:
  "length (store_set st sw i v) = length st \<and>
   (r \<noteq> sw \<longrightarrow> store_set st sw i v ! r = st ! r) \<and>
   length (store_set st sw i v ! sw) = length (st ! sw)"
  by (cases "sw < length st") (auto simp: store_set_def list_update_beyond)

lemma swap_fast_inner_frame:
  "length (swap_fast_inner st buf sw len bs a offset i) = length st \<and>
   (r \<noteq> sw \<longrightarrow> swap_fast_inner st buf sw len bs a offset i ! r = st ! r) \<and>
   length (swap_fast_inner st buf sw len bs a offset i ! sw) = length (st ! sw)"
proof (induction st buf sw len bs a offset i rule: swap_fast_inner.induct)
  case (1 st buf sw len bs a offset i)
  show ?case
  proof (cases "0 < bs \<and> i < len + offset")
    case True
    then have eq: "swap_fast_inner st buf sw len bs a offset i =
        swap_fast_inner (store_set st sw i (store_get st buf (int i + a))) buf sw len bs a offset (i + bs)"
      by (subst swap_fast_inner.simps) simp
    show ?thesis
      unfolding eq
      using 1 [OF True] store_set_frame [of st sw i "store_get st buf (int i + a)" r] by simp
  next
    case False
    then have "swap_fast_inner st buf sw len bs a offset i = st"
      by (subst swap_fast_inner.simps) auto
    then show ?thesis by simp
  qed
qed

lemma swap_fast_outer_frame:
  "length (swap_fast_outer st buf sw len bs offset) = length st \<and>
   (r \<noteq> sw \<longrightarrow> swap_fast_outer st buf sw len bs offset ! r = st ! r) \<and>
   length (swap_fast_outer st buf sw len bs offset ! sw) = length (st ! sw)"
proof (induction st buf sw len bs offset rule: swap_fast_outer.induct)
  case (1 st buf sw len bs offset)
  show ?case
  proof (cases "offset < bs")
    case True
    let ?st1 = "swap_fast_inner st buf sw len bs (int bs - 1 - int offset * 2) offset offset"
    from True have eq: "swap_fast_outer st buf sw len bs offset =
        swap_fast_outer ?st1 buf sw len bs (Suc offset)"
      by (subst swap_fast_outer.simps) (simp add: Let_def)
    show ?thesis
      unfolding eq
      using 1 [OF True refl]
        swap_fast_inner_frame [of st buf sw len bs "int bs - 1 - int offset * 2" offset offset r]
      by simp
  next
    case False
    then have "swap_fast_outer st buf sw len bs offset = st"
      by (subst swap_fast_outer.simps) auto
    then show ?thesis by simp
  qed
qed

lemma store_set_content:
  assumes "sw < length st" "j < length (st ! sw)"
  shows "store_set st sw i v ! sw ! j =
         (if j = i then (case v of None \<Rightarrow> 0 | Some b \<Rightarrow> b) else st ! sw ! j)"
  using assms by (auto simp: store_set_def)

lemma store_get_fetched:
  "(case store_get st buf k of None \<Rightarrow> 0 | Some b \<Rightarrow> b) = fetched (st ! buf) k"
  by (simp add: store_get_def fetched_def)

lemma swap_fast_inner_content:
  assumes "buf \<noteq> sw" "sw < length st" "j < length (st ! sw)"
  shows "swap_fast_inner st buf sw len bs a offset i ! sw ! j =
         (if 0 < bs \<and> i \<le> j \<and> j < len + offset \<and> bs dvd (j - i)
          then fetched (st ! buf) (int j + a) else st ! sw ! j)"
  using assms
proof (induction st buf sw len bs a offset i rule: swap_fast_inner.induct)
  case (1 st buf sw len bs a offset i)
  show ?case
  proof (cases "0 < bs \<and> i < len + offset")
    case True
    let ?st1 = "store_set st sw i (store_get st buf (int i + a))"
    from True have eq: "swap_fast_inner st buf sw len bs a offset i =
        swap_fast_inner ?st1 buf sw len bs a offset (i + bs)"
      by (subst swap_fast_inner.simps) simp
    have fr: "length ?st1 = length st" "?st1 ! buf = st ! buf" "length (?st1 ! sw) = length (st ! sw)"
      using store_set_frame [of st sw i "store_get st buf (int i + a)" buf] "1.prems"(1) by simp_all
    have ih: "swap_fast_inner ?st1 buf sw len bs a offset (i + bs) ! sw ! j =
         (if 0 < bs \<and> i + bs \<le> j \<and> j < len + offset \<and> bs dvd (j - (i + bs))
          then fetched (?st1 ! buf) (int j + a) else ?st1 ! sw ! j)"
      using "1.IH" [OF True "1.prems"(1)] "1.prems"(2,3) fr by simp
    have c: "?st1 ! sw ! j = (if j = i then fetched (st ! buf) (int i + a) else st ! sw ! j)"
      using store_set_content [OF "1.prems"(2,3), of i "store_get st buf (int i + a)"]
      by (simp add: store_get_fetched)
    have d: "(i \<le> j \<and> bs dvd (j - i)) \<longleftrightarrow> (j = i \<or> (i + bs \<le> j \<and> bs dvd (j - (i + bs))))"
    proof (cases "j = i")
      case True then show ?thesis by simp
    next
      case False
      show ?thesis
      proof
        assume h: "i \<le> j \<and> bs dvd (j - i)"
        with False have "0 < j - i" by simp
        with h have "bs \<le> j - i" by (auto dest: dvd_imp_le)
        moreover from h have "bs dvd (j - i - bs)"
          using dvd_diff_nat [of bs "j - i" bs] by simp
        then have "bs dvd (j - (i + bs))" by (simp add: diff_diff_left)
        ultimately show "j = i \<or> (i + bs \<le> j \<and> bs dvd (j - (i + bs)))" using h by auto
      next
        assume "j = i \<or> (i + bs \<le> j \<and> bs dvd (j - (i + bs)))"
        with False have h: "i + bs \<le> j" "bs dvd (j - (i + bs))" by auto
        have e: "j - i = (j - (i + bs)) + bs" using h(1) by simp
        from dvd_add [OF h(2) dvd_refl] have "bs dvd (j - i)" by (simp only: e [symmetric])
        with h(1) show "i \<le> j \<and> bs dvd (j - i)" by simp
      qed
    qed
    show ?thesis
      unfolding eq ih fr c using True d by auto
  next
    case False
    then have "swap_fast_inner st buf sw len bs a offset i = st"
      by (subst swap_fast_inner.simps) auto
    with False show ?thesis by auto
  qed
qed


lemma residue_char:
  fixes offset bs j :: nat
  assumes "offset < bs"
  shows "(offset \<le> j \<and> bs dvd (j - offset)) \<longleftrightarrow> j mod bs = offset"
proof
  assume h: "offset \<le> j \<and> bs dvd (j - offset)"
  then have "j mod bs = offset mod bs"
    using mod_eq_dvd_iff_nat [where m=j and n=offset and q=bs] by simp
  with assms show "j mod bs = offset" by simp
next
  assume h: "j mod bs = offset"
  then have le: "offset \<le> j" by (metis mod_less_eq_dividend)
  from h assms have "j mod bs = offset mod bs" by simp
  with le have "bs dvd (j - offset)" using mod_eq_dvd_iff_nat [where m=j and n=offset and q=bs] by simp
  with le show "offset \<le> j \<and> bs dvd (j - offset)" by simp
qed

lemma mirror_less:
  assumes "bs dvd len" "j < len"
  shows "mirror bs j < len"
proof -
  from assms have bs: "0 < bs" by (cases "bs = 0") auto
  obtain q where q: "len = bs * q" using assms(1) by (auto elim: dvdE)
  have "j div bs < q" using assms(2) bs q by (simp add: div_less_iff_less_mult mult.commute)
  then have "Suc (j div bs) \<le> q" by simp
  then have "bs * Suc (j div bs) \<le> bs * q" by (rule mult_le_mono2)
  moreover have "j - j mod bs = bs * (j div bs)" by (simp add: minus_mod_eq_mult_div)
  moreover have "j mod bs < bs" using bs by simp
  ultimately show ?thesis using q bs by (simp add: mirror_def)
qed

lemma mirror_int:
  assumes "0 < bs"
  shows "int (mirror bs j) = int j + (int bs - 1 - int (j mod bs) * 2)"
proof -
  have "j mod bs \<le> j" by simp
  moreover have "j mod bs \<le> bs - 1" using assms by (simp add: less_Suc_eq_le [symmetric])
  ultimately show ?thesis using assms unfolding mirror_def by linarith
qed

lemma swap_fast_outer_content:
  assumes "buf \<noteq> sw" "sw < length st" "length (st ! sw) = len" "length (st ! buf) = len"
    and "bs dvd len" "j < len"
  shows "swap_fast_outer st buf sw len bs offset ! sw ! j =
         (if offset \<le> j mod bs then st ! buf ! mirror bs j else st ! sw ! j)"
  using assms
proof (induction st buf sw len bs offset rule: swap_fast_outer.induct)
  case (1 st buf sw len bs offset)
  from "1.prems" have bs: "0 < bs" by (cases "bs = 0") auto
  show ?case
  proof (cases "offset < bs")
    case True
    let ?a = "int bs - 1 - int offset * 2"
    let ?st1 = "swap_fast_inner st buf sw len bs ?a offset offset"
    from True have eq: "swap_fast_outer st buf sw len bs offset =
        swap_fast_outer ?st1 buf sw len bs (Suc offset)"
      by (subst swap_fast_outer.simps) (simp add: Let_def)
    have fr: "length ?st1 = length st" "?st1 ! buf = st ! buf" "length (?st1 ! sw) = length (st ! sw)"
      using swap_fast_inner_frame [of st buf sw len bs ?a offset offset buf] "1.prems"(1) by simp_all
    have ih: "swap_fast_outer ?st1 buf sw len bs (Suc offset) ! sw ! j =
         (if Suc offset \<le> j mod bs then ?st1 ! buf ! mirror bs j else ?st1 ! sw ! j)"
      using "1.IH" [OF True refl "1.prems"(1)] "1.prems"(2-) fr by simp
    have inner: "?st1 ! sw ! j =
         (if 0 < bs \<and> offset \<le> j \<and> j < len + offset \<and> bs dvd (j - offset)
          then fetched (st ! buf) (int j + ?a) else st ! sw ! j)"
      using swap_fast_inner_content [OF "1.prems"(1,2), of j len bs ?a offset offset] "1.prems"(3,6)
      by simp
    have cond: "(0 < bs \<and> offset \<le> j \<and> j < len + offset \<and> bs dvd (j - offset)) \<longleftrightarrow> j mod bs = offset"
      using residue_char [OF True, of j] bs "1.prems"(6) by auto
    have val: "fetched (st ! buf) (int j + ?a) = st ! buf ! mirror bs j" if "j mod bs = offset"
    proof -
      have "int j + ?a = int (mirror bs j)" using mirror_int [OF bs, of j] that by simp
      moreover have "mirror bs j < length (st ! buf)"
        using mirror_less [OF "1.prems"(5,6)] "1.prems"(4) by simp
      ultimately show ?thesis by (simp add: fetched_def)
    qed
    show ?thesis
      unfolding eq ih fr inner cond using val by (auto simp: Suc_le_eq)
  next
    case False
    then have "swap_fast_outer st buf sw len bs offset = st"
      by (subst swap_fast_outer.simps) auto
    moreover have "j mod bs < bs" using bs by simp
    ultimately show ?thesis using False by auto
  qed
qed

lemma swapEndianessFast_result:
  assumes "buf < length st" "bs dvd length (st ! buf)"
  shows "swapEndianessFast st buf bs =
         (st @ [mirrored bs (st ! buf)], length st)"
proof -
  let ?len = "length (st ! buf)"
  let ?st0 = "st @ [replicate ?len 0]"
  let ?sw = "length st"
  let ?st' = "swap_fast_outer ?st0 buf ?sw ?len bs 0"
  have ne: "buf \<noteq> ?sw" using assms(1) by simp
  have b0: "?st0 ! buf = st ! buf" using assms(1) by (simp add: nth_append)
  have s0: "?st0 ! ?sw = replicate ?len 0" by simp
  have fr: "length ?st' = length ?st0" "length (?st' ! ?sw) = ?len"
    "\<And>r. r \<noteq> ?sw \<Longrightarrow> ?st' ! r = ?st0 ! r"
    using swap_fast_outer_frame [of ?st0 buf ?sw ?len bs 0] s0 by simp_all
  have c: "?st' ! ?sw ! j = st ! buf ! mirror bs j" if "j < ?len" for j
    using swap_fast_outer_content [OF ne, of ?st0 ?len bs j 0] that assms(2) b0 by simp
  have sw: "?st' ! ?sw = mirrored bs (st ! buf)"
    by (rule nth_equalityI) (simp_all add: fr mirrored_def c)
  have "?st' = st @ [mirrored bs (st ! buf)]"
  proof (rule nth_equalityI)
    show "length ?st' = length (st @ [mirrored bs (st ! buf)])" using fr by simp
  next
    fix r assume "r < length ?st'"
    then have "r < length st \<or> r = length st" using fr by auto
    then show "?st' ! r = (st @ [mirrored bs (st ! buf)]) ! r"
      using fr(3) [of r] sw by (auto simp: nth_append)
  qed
  then show ?thesis by (simp add: swapEndianessFast_def new_Uint8Array_def Let_def)
qed


lemma swap_elements_Nil [simp]: "swap_elements w [] = []"
  by (simp add: swap_elements_def elements_of.simps)

lemma swap_elements_step:
  "0 < w \<Longrightarrow> swap_elements w xs = rev (take w xs) @ swap_elements w (drop w xs)"
  by (cases "xs = []") (simp_all add: swap_elements_def elements_of.simps [of w xs])

lemma mirror_div_mod:
  assumes "0 < bs"
  shows "mirror bs j div bs = j div bs" and "mirror bs j mod bs = bs - 1 - j mod bs"
proof -
  have m: "mirror bs j = (bs - 1 - j mod bs) + (j div bs) * bs"
    by (simp add: mirror_def minus_mod_eq_div_mult)
  have lt: "bs - 1 - j mod bs < bs" using assms by simp
  show "mirror bs j div bs = j div bs" unfolding m using lt by simp
  show "mirror bs j mod bs = bs - 1 - j mod bs" unfolding m using lt by simp
qed

lemma mirror_mirror:
  assumes "0 < bs"
  shows "mirror bs (mirror bs j) = j"
proof -
  let ?k = "mirror bs j"
  have r: "j mod bs \<le> bs - 1" using assms by (simp add: less_Suc_eq_le [symmetric])
  have "?k - ?k mod bs = (?k div bs) * bs" by (rule minus_mod_eq_div_mult)
  then have hi: "?k - ?k mod bs = (j div bs) * bs" by (simp only: mirror_div_mod(1) [OF assms])
  have lo: "bs - 1 - ?k mod bs = j mod bs"
    using r by (simp add: mirror_div_mod(2) [OF assms])
  have "mirror bs ?k = (?k - ?k mod bs) + (bs - 1 - ?k mod bs)" by (rule mirror_def)
  also have "\<dots> = (j div bs) * bs + j mod bs" by (simp only: hi lo)
  finally show ?thesis by simp
qed

lemma mirrored_length [simp]: "length (mirrored bs xs) = length xs"
  by (simp add: mirrored_def)

lemma mirrored_nth:
  "j < length xs \<Longrightarrow> mirrored bs xs ! j = xs ! mirror bs j"
  by (simp add: mirrored_def)

lemma mirrored_involution:
  assumes "bs dvd length xs"
  shows "mirrored bs (mirrored bs xs) = xs"
proof (rule nth_equalityI)
  show "length (mirrored bs (mirrored bs xs)) = length xs" by simp
next
  fix j assume "j < length (mirrored bs (mirrored bs xs))"
  then have j: "j < length xs" by simp
  with assms have bs: "0 < bs" by (cases "bs = 0") auto
  have "mirror bs j < length xs" using mirror_less [OF assms j] .
  then show "mirrored bs (mirrored bs xs) ! j = xs ! j"
    using j by (simp add: mirrored_nth mirror_mirror [OF bs])
qed

lemma swap_elements_length [simp]:
  assumes "0 < w"
  shows "length (swap_elements w xs) = length xs"
proof (induction xs rule: length_induct)
  case (1 xs)
  show ?case
  proof (cases "xs = []")
    case True then show ?thesis by simp
  next
    case False
    with assms have "length (drop w xs) < length xs" by simp
    with 1 have "length (swap_elements w (drop w xs)) = length (drop w xs)" by blast
    then show ?thesis by (subst swap_elements_step [OF assms]) simp
  qed
qed

lemma mirror_low: "j < bs \<Longrightarrow> mirror bs j = bs - 1 - j"
  by (simp add: mirror_def)

lemma mirror_high:
  assumes "bs \<le> j"
  shows "mirror bs j = bs + mirror bs (j - bs)"
proof -
  have m: "(j - bs) mod bs = j mod bs" using assms by (simp add: le_mod_geq)
  have "j mod bs \<le> j - bs"
    using assms by (metis m mod_less_eq_dividend)
  then show ?thesis using assms unfolding mirror_def m by simp
qed

lemma swap_elements_nth:
  assumes "w dvd length xs" "j < length xs"
  shows "swap_elements w xs ! j = xs ! mirror w j"
  using assms
proof (induction xs arbitrary: j rule: length_induct)
  case (1 xs)
  from "1.prems" have w: "0 < w" by (cases "w = 0") auto
  from "1.prems" have wl: "w \<le> length xs" by (auto dest: dvd_imp_le)
  have st: "swap_elements w xs = rev (take w xs) @ swap_elements w (drop w xs)"
    by (rule swap_elements_step [OF w])
  show ?case
  proof (cases "j < w")
    case True
    then have "swap_elements w xs ! j = rev (take w xs) ! j"
      unfolding st using wl by (simp add: nth_append)
    also have "\<dots> = take w xs ! (w - Suc j)"
      using True wl by (simp add: rev_nth)
    also have "\<dots> = xs ! (w - 1 - j)" using w by simp
    finally show ?thesis using True by (simp add: mirror_low)
  next
    case False
    then have jw: "w \<le> j" by simp
    have d: "w dvd length (drop w xs)" using "1.prems"(1) wl by simp
    have l: "length (drop w xs) < length xs" using w "1.prems"(2) by simp
    have jl: "j - w < length (drop w xs)" using jw "1.prems"(2) by simp
    have ih: "swap_elements w (drop w xs) ! (j - w) = drop w xs ! mirror w (j - w)"
      using "1.IH" l d jl by blast
    have ml: "mirror w (j - w) < length (drop w xs)" by (rule mirror_less [OF d jl])
    have "swap_elements w xs ! j = swap_elements w (drop w xs) ! (j - w)"
      unfolding st using False wl by (simp add: nth_append)
    also have "\<dots> = xs ! (w + mirror w (j - w))" using ih ml wl by simp
    finally show ?thesis by (simp add: mirror_high [OF jw])
  qed
qed

lemma swap_elements_mirrored:
  assumes "w dvd length xs"
  shows "swap_elements w xs = mirrored w xs"
proof (cases "w = 0")
  case True
  with assms show ?thesis by (simp add: mirrored_def)
next
  case False
  then have w: "0 < w" by simp
  show ?thesis
    by (rule nth_equalityI) (simp_all add: w swap_elements_nth [OF assms] mirrored_nth)
qed


lemma swapEndianess_for_result:
  assumes "0 < bs" "buf < length st" "length (st ! buf) = len"
  shows "swapEndianess_for st buf len bs i =
         Some (st[buf := take i (st ! buf) @ swap_elements bs (drop i (st ! buf))])"
  using assms(2,3)
proof (induction "len - i" arbitrary: st i rule: less_induct)
  case less
  let ?xs = "st ! buf"
  show ?case
  proof (cases "i < len")
    case False
    then have "swapEndianess_for st buf len bs i = Some st"
      by (subst swapEndianess_for.simps) simp
    moreover have "take i ?xs @ swap_elements bs (drop i ?xs) = ?xs"
      using False less.prems by simp
    ultimately show ?thesis by simp
  next
    case True
    let ?xs1 = "take i ?xs @ rev (take bs (drop i ?xs)) @ drop (i + bs) ?xs"
    let ?st1 = "st[buf := ?xs1]"
    have r: "reverse_subarray st buf i (i + bs) = ?st1"
      by (simp add: reverse_subarray_def Let_def)
    have eq: "swapEndianess_for st buf len bs i = swapEndianess_for ?st1 buf len bs (i + bs)"
      using True by (subst swapEndianess_for.simps) (simp add: r)
    have b1: "?st1 ! buf = ?xs1" using less.prems by simp
    have l1: "length ?xs1 = len" using less.prems True by auto
    have "len - (i + bs) < len - i" using True assms(1) by simp
    then have ih: "swapEndianess_for ?st1 buf len bs (i + bs) =
        Some (?st1[buf := take (i + bs) (?st1 ! buf) @ swap_elements bs (drop (i + bs) (?st1 ! buf))])"
      using less.hyps [of "i + bs" ?st1] less.prems b1 l1 by simp
    have li: "length (take i ?xs) = i" using True less.prems by simp
    have t: "take (i + bs) ?xs1 = take i ?xs @ rev (take bs (drop i ?xs))"
      using li less.prems True by (auto simp: min_def)
    have d: "drop (i + bs) ?xs1 = drop (i + bs) ?xs"
    proof -
      have "length (take i ?xs @ rev (take bs (drop i ?xs))) = min (i + bs) len"
        using True less.prems by (auto simp: min_def)
      moreover have "drop (i + bs - min (i + bs) len) (drop (i + bs) ?xs) = drop (i + bs) ?xs"
        using less.prems by (cases "i + bs \<le> len") (simp_all add: min_def)
      ultimately show ?thesis
        using less.prems True
        by (simp only: append_assoc [symmetric] drop_append) (simp add: min_def)
    qed
    have sp: "swap_elements bs (drop i ?xs) =
        rev (take bs (drop i ?xs)) @ swap_elements bs (drop (i + bs) ?xs)"
      by (subst swap_elements_step [OF assms(1)]) (simp add: add.commute)
    show ?thesis
      unfolding eq ih b1 t d sp by simp
  qed
qed

lemma swapEndianess_result:
  assumes "0 < bs" "buf < length st"
  shows "swapEndianess st buf bs = Some (st[buf := swap_elements bs (st ! buf)], buf)"
  using swapEndianess_for_result [OF assms refl, of 0]
  by (simp add: swapEndianess_def Let_def)


text \<open>
  Claim C4. For a buffer whose length is a multiple of the element width \<open>w\<close>, with \<open>w\<close>
  one of 2, 4 and 8, the in-place \<open>swapEndianess\<close> returns, gives back its argument and
  leaves in it the buffer with the bytes of every \<open>w\<close>-byte element reversed; the
  allocating \<open>swapEndianessFast\<close>, run on the same input, returns an array with the same
  bytes.
\<close>

theorem swapEndianessFast_agrees_with_swapEndianess:
  assumes "buf < length st" and "w \<in> {2, 4, 8}" and "w dvd length (st ! buf)"
  shows "(case swapEndianess st buf w of
            None \<Rightarrow> False
          | Some (st1, r1) \<Rightarrow>
              r1 = buf \<and> st1 ! buf = swap_elements w (st ! buf) \<and>
              (case swapEndianessFast st buf w of (st2, r2) \<Rightarrow> st2 ! r2 = st1 ! r1))"
proof -
  from assms(2) have w: "0 < w" by auto
  show ?thesis
    using assms(1)
    by (simp add: swapEndianess_result [OF w assms(1)] swapEndianessFast_result [OF assms(1,3)]
        swap_elements_mirrored [OF assms(3)])
qed

theorem swapEndianessFast_agrees_with_swapEndianess_witness:
  "(0 :: nat) < length [[1, 2, 3, 4, 5, 6, 7, 8 :: byte]] \<and> (4 :: nat) \<in> {2, 4, 8} \<and>
   4 dvd length ([[1, 2, 3, 4, 5, 6, 7, 8 :: byte]] ! 0) \<and>
   swapEndianess [[1, 2, 3, 4, 5, 6, 7, 8]] 0 4 = Some ([[4, 3, 2, 1, 8, 7, 6, 5]], 0) \<and>
   swapEndianessFast [[1, 2, 3, 4, 5, 6, 7, 8]] 0 4 =
     ([[1, 2, 3, 4, 5, 6, 7, 8], [4, 3, 2, 1, 8, 7, 6, 5]], 1)"
proof -
  have h1: "(0 :: nat) < length [[1, 2, 3, 4, 5, 6, 7, 8 :: byte]]" by simp
  have h2: "(4 :: nat) \<in> {2, 4, 8}" by simp
  have l: "length ([[1, 2, 3, 4, 5, 6, 7, 8 :: byte]] ! 0) = 8" by simp
  have h3: "4 dvd length ([[1, 2, 3, 4, 5, 6, 7, 8 :: byte]] ! 0)" by (subst l) simp
  have a: "swapEndianess [[1, 2, 3, 4, 5, 6, 7, 8]] 0 4 = Some ([[4, 3, 2, 1, 8, 7, 6, 5]], 0)"
    by (simp add: swapEndianess_def swapEndianess_for.simps reverse_subarray_def)
  have b: "swapEndianessFast [[1, 2, 3, 4, 5, 6, 7, 8]] 0 4 =
     ([[1, 2, 3, 4, 5, 6, 7, 8], [4, 3, 2, 1, 8, 7, 6, 5]], 1)"
    by (simp add: swapEndianessFast_def new_Uint8Array_def swap_fast_outer.simps
        swap_fast_inner.simps store_set_def store_get_def Let_def)
  show ?thesis
    using swapEndianessFast_agrees_with_swapEndianess [OF h1 h2 h3] h1 h2 h3 a b by simp
qed

text \<open>
  Claim C10. For a buffer whose length is a multiple of the element width,
  \<open>swapEndianessFast\<close> returns an array other than its argument and leaves every array of
  the store, its argument among them, as it was; applied again to its result with the
  same width it returns the bytes of the original buffer.
\<close>

theorem swapEndianessFast_involution_no_mutation:
  assumes "buf < length st" and "w dvd length (st ! buf)"
  shows "(case swapEndianessFast st buf w of (st1, r1) \<Rightarrow>
            r1 \<noteq> buf \<and> take (length st) st1 = st \<and>
            (case swapEndianessFast st1 r1 w of (st2, r2) \<Rightarrow>
               st2 ! r2 = st ! buf \<and> take (length st1) st2 = st1))"
proof -
  let ?st1 = "st @ [mirrored w (st ! buf)]"
  have r1: "length st < length ?st1" by simp
  have d1: "w dvd length (?st1 ! length st)" using assms(2) by simp
  show ?thesis
    using assms(1)
    by (simp add: swapEndianessFast_result [OF assms] swapEndianessFast_result [OF r1 d1]
        mirrored_involution [OF assms(2)] nth_append)
qed


theorem swapEndianessFast_involution_no_mutation_witness:
  "(0 :: nat) < length [[1, 2, 3, 4 :: byte]] \<and> 2 dvd length ([[1, 2, 3, 4 :: byte]] ! 0) \<and>
   swapEndianessFast [[1, 2, 3, 4]] 0 2 = ([[1, 2, 3, 4], [2, 1, 4, 3]], 1) \<and>
   swapEndianessFast [[1, 2, 3, 4], [2, 1, 4, 3]] 1 2 =
     ([[1, 2, 3, 4], [2, 1, 4, 3], [1, 2, 3, 4]], 2)"
proof -
  have h1: "(0 :: nat) < length [[1, 2, 3, 4 :: byte]]" by simp
  have h2: "2 dvd length ([[1, 2, 3, 4 :: byte]] ! 0)" by simp
  have a: "swapEndianessFast [[1, 2, 3, 4]] 0 2 = ([[1, 2, 3, 4], [2, 1, 4, 3]], 1)"
    by (simp add: swapEndianessFast_def new_Uint8Array_def swap_fast_outer.simps
        swap_fast_inner.simps store_set_def store_get_def Let_def)
  have b: "swapEndianessFast [[1, 2, 3, 4], [2, 1, 4, 3]] 1 2 =
     ([[1, 2, 3, 4], [2, 1, 4, 3], [1, 2, 3, 4]], 2)"
    by (simp add: swapEndianessFast_def new_Uint8Array_def swap_fast_outer.simps
        swap_fast_inner.simps store_set_def store_get_def Let_def)
  show ?thesis
    using swapEndianessFast_involution_no_mutation [OF h1 h2] h1 h2 a b by simp
qed


section \<open>Unrecognized numeric kinds\<close>

lemma swapEndianessFast_bytes_length [simp]:
  "length (swapEndianessFast_bytes buf bs) = length buf"
  using swap_fast_outer_frame [of "[buf, replicate (length buf) 0]" 0 "Suc 0" "length buf" bs 0 0]
  by (simp add: swapEndianessFast_bytes_def swapEndianessFast_def new_Uint8Array_def Let_def)

lemma swapEndianessFast_num_length [simp]:
  "length (swapEndianessFast_num buf bytesize) = length buf"
  by (cases bytesize) (simp_all add: swapEndianessFast_num_def)

lemma those_list_map_Some [simp]: "those_list (map (\<lambda>x. Some (f x)) xs) = Some (map f xs)"
  by (induction xs) simp_all


lemma element_of_bytes_single [simp]: "element_of_bytes little [b] = uint b"
  by (simp add: element_of_bytes_def)


lemma word_of_int_mod_256 [simp]: "(word_of_int (v mod 256) :: byte) = word_of_int v"
  by (simp add: word_of_int_eq_iff take_bit_eq_mod)








section \<open>Round trip of the variable-length integers\<close>





























section \<open>Round trip of the fixed-width integers\<close>


lemma le_bytes_length [simp]: "length (le_bytes n u) = n"
  by (simp add: le_bytes_def)




lemma element_bytes_length [simp]: "length (element_bytes little n u) = n"
  by (simp add: element_bytes_def Let_def)





lemma those_list_Some [simp]: "those_list (map Some xs) = Some xs"
  by (induction xs) simp_all

lemma BYTES_PER_ELEMENT_pos [simp]: "0 < BYTES_PER_ELEMENT ctor"
  by (cases ctor) simp_all


lemma slice_whole [simp]:
  "slice B 0 None = B" "slice B 0 (Some (int (length B))) = B"
  by (simp_all add: slice_def relative_index_def Let_def)



section \<open>Round trip through pack and unpack\<close>











lemma subarray_whole [simp]:
  "subarray B 0 None = B" "subarray B 0 (Some (int (length B))) = B"
  by (simp_all add: subarray_def relative_index_def Let_def)






end
